theory Spec2Isabelle
  imports Main "HOL-Library.Sublist"
begin

section \<open>Python values, errors and the outside world\<close>

text \<open>
  The program is the single script \<^verbatim>\<open>py-trojan-emailer.py\<close>. Strings are Python
  \<^verbatim>\<open>str\<close> values, modelled as \<^typ>\<open>string\<close>. A cell of a recipient dictionary built by
  \<^verbatim>\<open>csv.DictReader\<close> is a string, \<^verbatim>\<open>None\<close> (the \<^verbatim>\<open>restval\<close> of a short row) or a
  list of strings (the surplus cells of a long row, stored under the key \<^verbatim>\<open>None\<close>).
\<close>

datatype pyval = Str string | NoneV | ListV "string list"

type_synonym pydict = "(string option \<times> pyval) list"

datatype error = SystemExit | UnboundLocalError | EOFError | TypeError | KeyError
  | ValueError | OverflowError | OSError | SMTPException

datatype level = DEBUG | INFO | WARNING | ERROR

fun level_no :: "level \<Rightarrow> nat" where
  "level_no DEBUG = 10"
| "level_no INFO = 20"
| "level_no WARNING = 30"
| "level_no ERROR = 40"

text \<open>
  A MIME part is either the text body (\<^verbatim>\<open>MIMEText(email_body, message_format)\<close>) or
  the attachment (\<^verbatim>\<open>MIMEBase('application', 'octet-stream')\<close>, whose payload is the
  file's content under the base64 transfer encoding, with its Content-Disposition header).
\<close>

datatype part = MIMEText string string | MIMEBase string string

record message =
  subtype :: string
  headers :: "(string \<times> pyval) list"
  parts :: "part list"

datatype smtp_command = Connect string int | Ehlo | StartTls | Login string "string option"
  | SendMessage message "string option" | Quit

datatype event = Log level string | Input string | Smtp smtp_command | Sleep int

text \<open>
  The world: the lines still to be read from standard input, the SMTP server's
  answers (whether the command issued at a given moment succeeds), the reading of the
  monotonic clock at a given moment, in nanoseconds, the level of the root logger, and the
  trace of everything the program has done so far. The moment of a command is the length
  of the trace when it is issued.
\<close>

record world =
  stdin :: "string list"
  smtp_ok :: "nat \<Rightarrow> smtp_command \<Rightarrow> bool"
  monotonic_ns :: "nat \<Rightarrow> int"
  log_level :: level
  trace :: "event list"

type_synonym 'a io = "world \<Rightarrow> (error + 'a) \<times> world"

definition bind :: "'a io \<Rightarrow> ('a \<Rightarrow> 'b io) \<Rightarrow> 'b io" where
  "bind m f w = (case m w of (Inl e, w') \<Rightarrow> (Inl e, w') | (Inr x, w') \<Rightarrow> f x w')"

definition emit :: "event \<Rightarrow> world \<Rightarrow> world" where
  "emit e w = w\<lparr>trace := trace w @ [e]\<rparr>"

text \<open>\<^verbatim>\<open>logging.debug/info/warning/error\<close>: the record is written when its level is
  not below the logger's; the format string is recorded, its arguments are not rendered.\<close>

definition log :: "level \<Rightarrow> string \<Rightarrow> world \<Rightarrow> world" where
  "log lvl msg w = (if level_no (log_level w) \<le> level_no lvl then emit (Log lvl msg) w else w)"

definition logs :: "level \<Rightarrow> string list \<Rightarrow> world \<Rightarrow> world" where
  "logs lvl msgs w = foldl (\<lambda>w' m. log lvl m w') w msgs"

text \<open>
  \<^verbatim>\<open>time.sleep\<close> on an integer (CPython 3.12 on Linux): ValueError on a negative
  length; OverflowError when the length does not fit the signed 64-bit count of
  nanoseconds the call converts it to (above 9223372036 seconds); and OSError when the
  deadline, the monotonic clock's reading plus the length, does not fit that count either:
  the sum wraps around and \<^verbatim>\<open>clock_nanosleep\<close> refuses the negative deadline.
\<close>

definition sleep :: "int \<Rightarrow> unit io" where
  "sleep n w =
     (if n < 0 then (Inl ValueError, w)
      else if 9223372036 < n then (Inl OverflowError, w)
      else if 9223372036854775807 < monotonic_ns w (length (trace w)) + n * 1000000000
           then (Inl OSError, w)
      else (Inr (), emit (Sleep n) w))"

text \<open>A call of an \<^verbatim>\<open>smtplib.SMTP\<close> method: recorded, and failing when the server says so.\<close>

definition smtp_call :: "smtp_command \<Rightarrow> unit io" where
  "smtp_call c w =
     (if smtp_ok w (length (trace w)) c then Inr () else Inl SMTPException, emit (Smtp c) w)"

text \<open>
  \<^verbatim>\<open>with smtplib.SMTP(host, port) as smtp_server: body\<close>. A failed connection raises
  before the block is entered; otherwise QUIT is sent on every way out of the block, and
  a failing QUIT raises too.
\<close>

definition with_SMTP :: "string \<Rightarrow> int \<Rightarrow> unit io \<Rightarrow> unit io" where
  "with_SMTP host port body w =
     (case smtp_call (Connect host port) w of
        (Inl e, w1) \<Rightarrow> (Inl e, w1)
      | (Inr _, w1) \<Rightarrow>
          (case body w1 of (r, w2) \<Rightarrow>
             (case smtp_call Quit w2 of
                (Inl e, w3) \<Rightarrow> (Inl e, w3)
              | (Inr _, w3) \<Rightarrow> (r, w3))))"

section \<open>Library functions used by the script\<close>

text \<open>\<^verbatim>\<open>str.replace(old, new)\<close>: non-overlapping occurrences, leftmost first; an empty
  \<^verbatim>\<open>old\<close> matches before every character and at the end.\<close>

function str_replace :: "string \<Rightarrow> string \<Rightarrow> string \<Rightarrow> string" where
  "str_replace [] old new = (if old = [] then new else [])"
| "str_replace (c # cs) old new =
     (if old = [] then new @ c # str_replace cs old new
      else if prefix old (c # cs) then new @ str_replace (drop (length old) (c # cs)) old new
      else c # str_replace cs old new)"
  by pat_completeness auto
termination
  by (relation "measure (\<lambda>(s, old, new). length s)") auto

text \<open>\<^verbatim>\<open>str.lower()\<close> on the ASCII letters; no other character is mapped to an ASCII
  letter by Python's lower-casing, so bytes outside A-Z are left alone.\<close>

definition lower_char :: "char \<Rightarrow> char" where
  "lower_char c =
     (case map_of (zip ''ABCDEFGHIJKLMNOPQRSTUVWXYZ'' ''abcdefghijklmnopqrstuvwxyz'') c of
        Some l \<Rightarrow> l | None \<Rightarrow> c)"

definition lower :: "string \<Rightarrow> string" where
  "lower s = map lower_char s"

text \<open>\<^verbatim>\<open>os.path.basename\<close>: what follows the last slash.\<close>

definition basename :: "string \<Rightarrow> string" where
  "basename p = rev (takeWhile (\<lambda>c. c \<noteq> CHR ''/'') (rev p))"

text \<open>\<^verbatim>\<open>'{0}'.format(key)\<close> for a dictionary key: the string, or \<^verbatim>\<open>None\<close> spelled out.\<close>

fun format_key :: "string option \<Rightarrow> string" where
  "format_key None = ''None''"
| "format_key (Some k) = k"

text \<open>Python dictionaries keep insertion order; assigning to a present key keeps its place.\<close>

fun dict_set :: "'k \<Rightarrow> 'v \<Rightarrow> ('k \<times> 'v) list \<Rightarrow> ('k \<times> 'v) list" where
  "dict_set k v [] = [(k, v)]"
| "dict_set k v ((k', v') # d) = (if k = k' then (k, v) # d else (k', v') # dict_set k v d)"

text \<open>
  \<^verbatim>\<open>csv.DictReader\<close> over the rows that \<^verbatim>\<open>csv.reader\<close> yields from the file: the first
  row gives the field names, blank rows are skipped, and each other row becomes
  \<^verbatim>\<open>dict(zip(fieldnames, row))\<close>, with the surplus cells of a long row under the key
  \<^verbatim>\<open>None\<close> and \<^verbatim>\<open>None\<close> for the missing cells of a short row.
\<close>

definition dict_row :: "string list \<Rightarrow> string list \<Rightarrow> pydict" where
  "dict_row fieldnames row =
     (let d = foldl (\<lambda>d (k, v). dict_set (Some k) (Str v) d) [] (zip fieldnames row);
          lf = length fieldnames;
          lr = length row
      in if lf < lr then dict_set None (ListV (drop lf row)) d
         else if lf > lr then foldl (\<lambda>d k. dict_set (Some k) NoneV d) d (drop lr fieldnames)
         else d)"

definition DictReader :: "string list list \<Rightarrow> pydict list" where
  "DictReader rows =
     (case rows of
        [] \<Rightarrow> []
      | fieldnames # rest \<Rightarrow> map (dict_row fieldnames) (filter (\<lambda>row. row \<noteq> []) rest))"

section \<open>The library's address parser\<close>


definition LWS :: string where
  "LWS = [CHR '' '', CHR 0x09]"





text \<open>
  \<^verbatim>\<open>getcomment\<close> is \<^verbatim>\<open>getdelimited('(', ')\r', True)\<close>, whose result goes to the comment
  list only: \<^verbatim>\<open>comment_body\<close> is what is left after the comment, with the number of
  comments still open (a nested comment is read by a nested call) and the flag set by a
  backslash.
\<close>

fun comment_body :: "nat \<Rightarrow> bool \<Rightarrow> string \<Rightarrow> string" where
  "comment_body depth quote [] = []"
| "comment_body depth quote (c # cs) =
     (if quote then comment_body depth False cs
      else if c = CHR '')'' \<or> c = CHR 0x0D
           then (case depth of 0 \<Rightarrow> cs | Suc d \<Rightarrow> comment_body d False cs)
      else if c = CHR ''('' then comment_body (Suc depth) False cs
      else if c = CHR 0x5C then comment_body depth True cs
      else comment_body depth False cs)"

definition getcomment :: "string \<Rightarrow> string" where
  "getcomment s = (case s of [] \<Rightarrow> [] | c # cs \<Rightarrow> if c \<noteq> CHR ''('' then s else comment_body 0 False cs)"





definition getatom :: "string \<Rightarrow> string \<Rightarrow> string \<times> string" where
  "getatom ends s = (takeWhile (\<lambda>c. c \<notin> set ends) s, dropWhile (\<lambda>c. c \<notin> set ends) s)"

text \<open>No method moves the position backwards, and most move it forwards: the loops
  below terminate for this reason.\<close>

lemma length_comment_body: "length (comment_body d q s) \<le> length s"
  by (induction s arbitrary: d q) (auto split: nat.splits intro: le_SucI)

lemma length_getcomment: "length (getcomment (CHR ''('' # cs)) < Suc (length cs)"
  using length_comment_body [of 0 False cs] by (simp add: getcomment_def)




lemma length_getatom: "getatom ends s = (t, r) \<Longrightarrow> length r \<le> length s"
  by (auto simp: getatom_def length_dropWhile_le)


text \<open>\<^verbatim>\<open>gotonext\<close>: skips white space and comments; returns the blanks and tabs skipped.\<close>

function gotonext :: "string \<Rightarrow> string \<times> string" where
  "gotonext [] = ([], [])"
| "gotonext (c # cs) =
     (if c \<in> set (LWS @ [CHR 0x0A, CHR 0x0D])
      then (case gotonext cs of (ws, r) \<Rightarrow> (if c \<notin> set [CHR 0x0A, CHR 0x0D] then c # ws else ws, r))
      else if c = CHR ''('' then gotonext (getcomment (c # cs))
      else ([], c # cs))"
  by pat_completeness auto
termination
  by (relation "measure length") (auto simp: length_getcomment)









definition quote :: "string \<Rightarrow> string" where
  "quote s = str_replace (str_replace s [CHR 0x5C] [CHR 0x5C, CHR 0x5C]) [CHR 0x22] [CHR 0x5C, CHR 0x22]"























section \<open>The script\<close>

text \<open>
  The parsed command line (\<^verbatim>\<open>cli_arguments\<close>). The files that argparse opens are held by
  their content: \<^verbatim>\<open>email_body\<close> and \<^verbatim>\<open>email_attachment\<close> are read whole and rewound
  with \<^verbatim>\<open>seek(0)\<close> straight after every read, so each read returns the whole content;
  \<^verbatim>\<open>recipient_file\<close> is held as the rows \<^verbatim>\<open>csv.reader\<close> yields from it.
\<close>

record cli_arguments =
  logging_level :: level
  sender_address :: string
  envelope_sender_address :: "string option"
  sender_display_name :: string
  hide_source_email :: bool
  cc_display_name :: "string option"
  recipient :: "string option"
  recipient_file :: "string list list option"
  email_subject :: string
  email_body :: string
  email_attachment :: "(string \<times> string) option"
  message_format :: string
  message_priority :: string
  smtp_server :: string
  smtp_port :: int
  sending_delay :: int
  smtp_username :: "string option"
  smtp_password :: "string option"

subsection \<open>send_email\<close>

definition space_hack :: string where
  "space_hack = replicate 200 CHR '' '' @ ''|''"

text \<open>Lines 22-26: the From header.\<close>

definition from_header :: "cli_arguments \<Rightarrow> string" where
  \<open>from_header a =
     (if \<not> hide_source_email a
      then ''"'' @ sender_display_name a @ ''" <'' @ sender_address a @ ''>''
      else ''"'' @ sender_display_name a @ '' '' @ space_hack @ ''" <'' @ sender_address a @ ''>'')\<close>

text \<open>Lines 19-31: the headers the script sets, in the order it sets them.\<close>

definition build_headers :: "pyval \<Rightarrow> cli_arguments \<Rightarrow> (string \<times> pyval) list" where
  \<open>build_headers recipient_email_addresss a =
     [(''Subject'', Str (email_subject a)),
      (''To'', recipient_email_addresss),
      (''From'', Str (from_header a)),
      (''X-Priority'', Str (message_priority a))]
     @ (case cc_display_name a of
          None \<Rightarrow> []
        | Some cc \<Rightarrow> [(''CC'', Str (''"'' @ cc @ ''" <>''))])\<close>

definition replacement_egg :: "string option \<Rightarrow> string" where
  "replacement_egg key = ''$'' @ format_key key @ ''$''"

text \<open>Lines 40-43: the substitution loop over \<^verbatim>\<open>replacement_values.items()\<close>. A value that
  is not a string makes \<^verbatim>\<open>str.replace\<close> raise TypeError.\<close>

fun replace_placeholders :: "string \<Rightarrow> pydict \<Rightarrow> string io" where
  "replace_placeholders body [] w = (Inr body, w)"
| "replace_placeholders body ((key, value) # items) w =
     (let w' = log DEBUG ''Replacing [%s] with [%s]'' w
      in case value of
           Str v \<Rightarrow> replace_placeholders (str_replace body (replacement_egg key) v) items w'
         | _ \<Rightarrow> (Inl TypeError, w'))"

text \<open>Lines 45-59: the body part and the optional attachment part.\<close>

definition build_parts :: "cli_arguments \<Rightarrow> string \<Rightarrow> part list" where
  "build_parts a body =
     MIMEText body (message_format a)
     # (case email_attachment a of
          None \<Rightarrow> []
        | Some (name, content) \<Rightarrow>
            [MIMEBase content (''attachment; filename= '' @ basename name)])"

definition build_message :: "pyval \<Rightarrow> cli_arguments \<Rightarrow> string \<Rightarrow> message" where
  "build_message recipient_email_addresss a body =
     \<lparr>subtype = ''alternative'',
      headers = build_headers recipient_email_addresss a,
      parts = build_parts a body\<rparr>"

text \<open>Lines 65-71: STARTTLS and login when a user name is given.\<close>

definition authenticate :: "cli_arguments \<Rightarrow> unit io" where
  "authenticate a =
     (case smtp_username a of
        None \<Rightarrow> (\<lambda>w. (Inr (), w))
      | Some user \<Rightarrow>
          (\<lambda>w. bind (smtp_call Ehlo) (\<lambda>_.
               bind (smtp_call StartTls) (\<lambda>_.
               bind (smtp_call Ehlo) (\<lambda>_.
               smtp_call (Login user (smtp_password a)))))
               (log INFO ''Logging into %s on port %i using user: %s'' w)))"

text \<open>Lines 74-80: the message is handed to \<^verbatim>\<open>send_message\<close>, with \<^verbatim>\<open>from_addr\<close> only
  when an envelope sender is configured.\<close>

definition deliver :: "cli_arguments \<Rightarrow> message \<Rightarrow> unit io" where
  "deliver a email_message w =
     smtp_call (SendMessage email_message (envelope_sender_address a))
       (log INFO ''Sending an email to %s'' w)"

definition send_email :: "pyval \<Rightarrow> cli_arguments \<Rightarrow> pydict option \<Rightarrow> unit io" where
  "send_email recipient_email_addresss a replacement_values =
     bind (case replacement_values of
             None \<Rightarrow> (\<lambda>w. (Inr (email_body a), w))
           | Some d \<Rightarrow> replace_placeholders (email_body a) d)
       (\<lambda>body.
          with_SMTP (smtp_server a) (smtp_port a)
            (bind (authenticate a)
               (\<lambda>_. deliver a (build_message recipient_email_addresss a body))))"

subsection \<open>confirm_action\<close>

text \<open>Lines 125-128: \<^verbatim>\<open>prompt\<close> is bound only for the defaults y and n.\<close>

definition prompt_for :: "string \<Rightarrow> string option" where
  "prompt_for dflt =
     (if dflt = ''y'' then Some '' [Y/n] ''
      else if dflt = ''n'' then Some '' [y/N] ''
      else None)"

text \<open>\<^verbatim>\<open>input('Input -> ')\<close>: one line of standard input, EOFError at its end.\<close>

definition input :: "string \<Rightarrow> string io" where
  "input p w =
     (case stdin w of
        [] \<Rightarrow> (Inl EOFError, emit (Input p) w)
      | line # rest \<Rightarrow> (Inr line, emit (Input p) (w\<lparr>stdin := rest\<rparr>)))"

text \<open>Lines 130-139: the \<^verbatim>\<open>while True\<close> loop; every turn reads one line.\<close>

function confirm_loop :: "string \<Rightarrow> string option \<Rightarrow> string \<Rightarrow> bool io" where
  "confirm_loop question prompt dflt w =
     (case prompt of
        None \<Rightarrow> (Inl UnboundLocalError, w)
      | Some p \<Rightarrow>
          (case input ''Input -> '' (log INFO (question @ p) w) of
             (Inl e, w') \<Rightarrow> (Inl e, w')
           | (Inr line, w') \<Rightarrow>
               (let choice = lower line
                in if choice = dflt \<or> choice = '''' then (Inr True, w')
                   else if (choice = ''y'' \<or> choice = ''n'') \<and> choice \<noteq> dflt
                        then (Inr False, w')
                   else confirm_loop question prompt dflt
                          (log WARNING ''Invalid input supplied'' w'))))"
  by pat_completeness auto
termination
  by (relation "measure (\<lambda>(question, prompt, dflt, w). length (stdin w))")
     (auto simp: input_def log_def emit_def split: list.splits if_splits)

definition confirm_action :: "string \<Rightarrow> string \<Rightarrow> bool io" where
  "confirm_action question dflt = confirm_loop question (prompt_for dflt) dflt"

subsection \<open>send_multiple_emails\<close>

text \<open>Lines 104-107: every recipient's fields are logged for review.\<close>

definition review_lines :: "pydict list \<Rightarrow> string list" where
  "review_lines recipient_information =
     concat (map (\<lambda>individual_recipient.
                    ''--------------------'' # map (\<lambda>_. ''[%s] %s'') individual_recipient)
                 recipient_information)"

text \<open>Lines 114-117: one message per recipient, then the delay.\<close>

fun send_all :: "pydict list \<Rightarrow> cli_arguments \<Rightarrow> unit io" where
  "send_all [] a w = (Inr (), w)"
| "send_all (individual_recipient # others) a w =
     (case map_of individual_recipient (Some ''EmailAddress'') of
        None \<Rightarrow> (Inl KeyError, w)
      | Some address \<Rightarrow>
          bind (send_email address a (Some individual_recipient))
            (\<lambda>_. bind (sleep (sending_delay a)) (\<lambda>_. send_all others a))
            (log DEBUG ''Processing an email to %s'' w))"

definition send_multiple_emails :: "string list list \<Rightarrow> cli_arguments \<Rightarrow> unit io" where
  "send_multiple_emails recipient_rows a w =
     (let recipient_information = DictReader recipient_rows
      in if length recipient_information < 1
         then (Inl SystemExit,
               log ERROR (''The provided CSV is too short. There should be at least two rows. ''
                          @ ''The header row and one row of data.'') w)
         else if map_of (hd recipient_information) (Some ''EmailAddress'') = None
         then (Inl SystemExit,
               log ERROR (''Looks like the EmailAddress field was not included in the recipient CSV file. ''
                          @ ''This is a required item and must be included.'') w)
         else
           (case confirm_action ''Before multiple emails are sent, do these values look correct?'' ''y''
                   (logs INFO (review_lines recipient_information)
                      (log INFO ''The following %i emails are about to be sent:'' w)) of
              (Inl e, w') \<Rightarrow> (Inl e, w')
            | (Inr answer, w') \<Rightarrow>
                if answer = False
                then (Inl SystemExit, log WARNING ''User termination. Improper values detected.'' w')
                else send_all recipient_information a w'))"

subsection \<open>main\<close>

text \<open>Lines 186-201, after argument parsing: logging set-up, the credential check, and
  the choice between one recipient and a recipient file.\<close>

definition main :: "cli_arguments \<Rightarrow> unit io" where
  "main cli_args w =
     (let w0 = w\<lparr>log_level := logging_level cli_args\<rparr>
      in if (smtp_username cli_args \<noteq> None \<or> smtp_password cli_args \<noteq> None)
            \<and> (smtp_username cli_args = None \<or> smtp_password cli_args = None)
         then (Inl SystemExit,
               log ERROR ''Both a username and password is required for SMTP authentication'' w0)
         else
           (case recipient cli_args of
              Some r \<Rightarrow> send_email (Str r) cli_args None (log INFO ''Processing a single email to %s'' w0)
            | None \<Rightarrow>
                (case recipient_file cli_args of
                   Some f \<Rightarrow>
                     send_multiple_emails f cli_args
                       (log INFO ''Processing multiple emails to individuals in the file at %s'' w0)
                 | None \<Rightarrow> (Inr (), w0))))"

section \<open>Reading a trace\<close>

text \<open>The events a computation added to the trace.\<close>

definition new_events :: "world \<Rightarrow> world \<Rightarrow> event list" where
  "new_events w w' = drop (length (trace w)) (trace w')"

fun is_smtp :: "event \<Rightarrow> bool" where
  "is_smtp (Smtp c) = True"
| "is_smtp e = False"

text \<open>The messages handed to \<^verbatim>\<open>send_message\<close>, with the \<^verbatim>\<open>from_addr\<close> argument, in order.\<close>

fun sent :: "event list \<Rightarrow> (message \<times> string option) list" where
  "sent [] = []"
| "sent (Smtp (SendMessage m f) # es) = (m, f) # sent es"
| "sent (e # es) = sent es"

text \<open>Sends and pauses only, in order.\<close>

fun is_send_or_sleep :: "event \<Rightarrow> bool" where
  "is_send_or_sleep (Smtp (SendMessage m f)) = True"
| "is_send_or_sleep (Sleep n) = True"
| "is_send_or_sleep e = False"

fun text_bodies :: "message \<Rightarrow> string list" where
  "text_bodies m = concat (map (\<lambda>p. case p of MIMEText b s \<Rightarrow> [b] | MIMEBase c d \<Rightarrow> []) (parts m))"

section \<open>Notions for stating the properties\<close>

text \<open>A mapping from keys to string values, as the dictionary the script iterates.\<close>

definition str_items :: "(string \<times> string) list \<Rightarrow> pydict" where
  "str_items M = map (\<lambda>(k, v). (Some k, Str v)) M"

text \<open>What one turn of the prompt leaves behind: the question logged, one line read.\<close>

definition asked :: "string \<Rightarrow> string \<Rightarrow> world \<Rightarrow> world" where
  "asked question p w = emit (Input ''Input -> '') ((log INFO (question @ p) w)\<lparr>stdin := tl (stdin w)\<rparr>)"

definition valid_answer :: "string \<Rightarrow> bool" where
  "valid_answer line = (lower line = '''' \<or> lower line = ''y'' \<or> lower line = ''n'')"

text \<open>Log records.\<close>

fun is_log :: "event \<Rightarrow> bool" where
  "is_log (Log l m) = True"
| "is_log e = False"

text \<open>The value of \<^verbatim>\<open>replace_placeholders\<close>: the body after the loop, or the TypeError; it does
  not depend on the world.\<close>

fun replaced :: "string \<Rightarrow> pydict \<Rightarrow> error + string" where
  "replaced body [] = Inr body"
| "replaced body ((key, value) # items) =
     (case value of
        Str v \<Rightarrow> replaced (str_replace body (replacement_egg key) v) items
      | _ \<Rightarrow> Inl TypeError)"

text \<open>Lines 62-80 of \<^verbatim>\<open>send_email\<close>: the SMTP block, for a message already built.\<close>

definition session :: "cli_arguments \<Rightarrow> message \<Rightarrow> unit io" where
  "session a m = with_SMTP (smtp_server a) (smtp_port a) (bind (authenticate a) (\<lambda>_. deliver a m))"

text \<open>The body \<^verbatim>\<open>send_email\<close> puts in the message: the file's content, after the
  substitution loop when replacement values are given.\<close>

definition resolved_body :: "cli_arguments \<Rightarrow> pydict option \<Rightarrow> error + string" where
  "resolved_body a replacement_values =
     (case replacement_values of None \<Rightarrow> Inr (email_body a) | Some d \<Rightarrow> replaced (email_body a) d)"

text \<open>The \<^verbatim>\<open>send_message\<close> call \<^verbatim>\<open>send_email\<close> makes for a given body.\<close>

definition the_send :: "pyval \<Rightarrow> cli_arguments \<Rightarrow> string \<Rightarrow> event" where
  "the_send r a body = Smtp (SendMessage (build_message r a body) (envelope_sender_address a))"



text \<open>What the review listing and the prompt may add to the trace: input calls, and log
  records at the levels INFO and WARNING.\<close>

fun is_prompt_event :: "event \<Rightarrow> bool" where
  "is_prompt_event (Input p) = True"
| "is_prompt_event (Log lvl msg) = (lvl = INFO \<or> lvl = WARNING)"
| "is_prompt_event e = False"

text \<open>The world when \<^verbatim>\<open>send_multiple_emails\<close> asks for confirmation: the count and the review
  listing have been logged.\<close>

definition at_prompt :: "pydict list \<Rightarrow> world \<Rightarrow> world" where
  "at_prompt recipient_information w =
     logs INFO (review_lines recipient_information)
       (log INFO ''The following %i emails are about to be sent:'' w)"




section \<open>Example inputs\<close>

text \<open>A command line used to run the script on concrete inputs.\<close>

definition example_args :: cli_arguments where
  "example_args =
     \<lparr>logging_level = INFO,
      sender_address = ''bob@example.com'',
      envelope_sender_address = None,
      sender_display_name = ''Bob'',
      hide_source_email = True,
      cc_display_name = None,
      recipient = None,
      recipient_file = None,
      email_subject = ''Offer for $Name$'',
      email_body = ''Hi $Name$'',
      email_attachment = None,
      message_format = ''html'',
      message_priority = ''3'',
      smtp_server = ''mail.example.com'',
      smtp_port = 25,
      sending_delay = 0,
      smtp_username = None,
      smtp_password = None\<rparr>"

text \<open>A world with the given lines on standard input, a server that accepts everything,
  a monotonic clock that reads one hour, and nothing done yet.\<close>

definition example_world :: "string list \<Rightarrow> world" where
  "example_world lines =
     \<lparr>stdin = lines, smtp_ok = (\<lambda>n c. True), monotonic_ns = (\<lambda>n. 3600000000000),
      log_level = INFO, trace = []\<rparr>"

text \<open>Recipient tables for running the batch, as \<^verbatim>\<open>csv.reader\<close> yields them.\<close>

definition example_table :: "string list list" where
  "example_table = [[''EmailAddress'', ''Name''], [''a@x.com'', ''Alice''], [''b@x.com'', ''Bob'']]"



declare confirm_loop.simps [simp del]

section \<open>What each step adds to the trace\<close>

lemma stdin_log [simp]: "stdin (log lvl msg w) = stdin w"
  by (simp add: log_def emit_def)

lemma sent_append [simp]: "sent (xs @ ys) = sent xs @ sent ys"
  by (induction xs rule: sent.induct) auto

lemma sent_logs: "\<forall>e \<in> set ev. is_log e \<Longrightarrow> sent ev = []"
  by (induction ev rule: sent.induct) auto

lemma filter_logs: "\<forall>e \<in> set ev. is_log e \<Longrightarrow> filter is_send_or_sleep ev = []"
  by (induction ev rule: sent.induct) auto

lemma smtp_ok_log [simp]: "smtp_ok (log lvl msg w) = smtp_ok w"
  by (simp add: log_def emit_def)

lemma log_level_log [simp]: "log_level (log lvl msg w) = log_level w"
  by (simp add: log_def emit_def)

lemma log_trace: "\<exists>ev. trace (log lvl msg w) = trace w @ ev \<and> (\<forall>e \<in> set ev. is_log e)"
proof (cases "level_no (log_level w) \<le> level_no lvl")
  case True
  then have "trace (log lvl msg w) = trace w @ [Log lvl msg]" by (simp add: log_def emit_def)
  then show ?thesis by fastforce
next
  case False
  then have "trace (log lvl msg w) = trace w @ []" by (simp add: log_def)
  then show ?thesis by fastforce
qed

lemma replace_placeholders_stdin [simp]:
  "stdin (snd (replace_placeholders b d w)) = stdin w"
  by (induction b d w rule: replace_placeholders.induct) (simp_all add: Let_def split: pyval.splits)

lemma replace_placeholders_smtp_ok [simp]:
  "smtp_ok (snd (replace_placeholders b d w)) = smtp_ok w"
  by (induction b d w rule: replace_placeholders.induct) (simp_all add: Let_def split: pyval.splits)

lemma replace_placeholders_log_level [simp]:
  "log_level (snd (replace_placeholders b d w)) = log_level w"
  by (induction b d w rule: replace_placeholders.induct) (simp_all add: Let_def split: pyval.splits)

lemma replace_placeholders_fst [simp]:
  "fst (replace_placeholders b d w) = replaced b d"
  by (induction b d w rule: replace_placeholders.induct) (simp_all add: Let_def split: pyval.splits)

lemma replace_placeholders_trace:
  "\<exists>ev. trace (snd (replace_placeholders b d w)) = trace w @ ev \<and> (\<forall>e \<in> set ev. is_log e)"
proof (induction b d w rule: replace_placeholders.induct)
  case (1 body w)
  then show ?case by simp
next
  case (2 body key "value" items w)
  let ?w = "log DEBUG ''Replacing [%s] with [%s]'' w"
  obtain ev where ev: "trace ?w = trace w @ ev" "\<forall>e \<in> set ev. is_log e"
    using log_trace by blast
  show ?case
  proof (cases "value")
    case (Str v)
    from "2.IH" [OF refl Str] obtain ev' where
      ev': "trace (snd (replace_placeholders (str_replace body (replacement_egg key) v) items ?w))
             = trace ?w @ ev'" "\<forall>e \<in> set ev'. is_log e"
      by blast
    have "trace (snd (replace_placeholders body ((key, value) # items) w)) = trace w @ (ev @ ev')"
      using Str ev ev' by (simp add: Let_def)
    moreover have "\<forall>e \<in> set (ev @ ev'). is_log e" using ev ev' by auto
    ultimately show ?thesis by blast
  next
    case NoneV
    with ev show ?thesis by (simp add: Let_def)
  next
    case (ListV x3)
    with ev show ?thesis by (simp add: Let_def)
  qed
qed

lemma bind_proj:
  "bind m f w = (case fst (m w) of Inl e \<Rightarrow> (Inl e, snd (m w)) | Inr x \<Rightarrow> f x (snd (m w)))"
  by (simp add: bind_def split: prod.splits sum.splits)

lemma fst_smtp_call:
  "fst (smtp_call c w) = (if smtp_ok w (length (trace w)) c then Inr () else Inl SMTPException)"
  by (simp add: smtp_call_def)

lemma snd_smtp_call: "snd (smtp_call c w) = emit (Smtp c) w"
  by (simp add: smtp_call_def)

lemma emit_proj [simp]:
  "stdin (emit e w) = stdin w" "smtp_ok (emit e w) = smtp_ok w"
  "log_level (emit e w) = log_level w" "trace (emit e w) = trace w @ [e]"
  by (simp_all add: emit_def)

lemma trace_log:
  "trace (log lvl msg w) = trace w @ (if level_no (log_level w) \<le> level_no lvl then [Log lvl msg] else [])"
  by (simp add: log_def)

lemma authenticate_frame [simp]:
  "stdin (snd (authenticate a w)) = stdin w"
  "smtp_ok (snd (authenticate a w)) = smtp_ok w"
  "log_level (snd (authenticate a w)) = log_level w"
  by (simp_all add: authenticate_def bind_proj fst_smtp_call snd_smtp_call split: option.splits)

lemma authenticate_trace:
  "\<exists>ev. trace (snd (authenticate a w)) = trace w @ ev \<and> filter is_send_or_sleep ev = []"
  by (simp add: authenticate_def bind_proj fst_smtp_call snd_smtp_call trace_log split: option.splits)


lemma deliver_frame [simp]:
  "stdin (snd (deliver a m w)) = stdin w"
  "smtp_ok (snd (deliver a m w)) = smtp_ok w"
  "log_level (snd (deliver a m w)) = log_level w"
  by (simp_all add: deliver_def snd_smtp_call)

lemma deliver_trace:
  "\<exists>ev. trace (snd (deliver a m w)) = trace w @ ev
       \<and> filter is_send_or_sleep ev = [Smtp (SendMessage m (envelope_sender_address a))]"
  by (simp add: deliver_def snd_smtp_call trace_log)


lemma with_SMTP_proj:
  "with_SMTP h p body w =
     (if smtp_ok w (length (trace w)) (Connect h p)
      then (if smtp_ok (snd (body (emit (Smtp (Connect h p)) w)))
                 (length (trace (snd (body (emit (Smtp (Connect h p)) w))))) Quit
            then fst (body (emit (Smtp (Connect h p)) w)) else Inl SMTPException,
            emit (Smtp Quit) (snd (body (emit (Smtp (Connect h p)) w))))
      else (Inl SMTPException, emit (Smtp (Connect h p)) w))"
  by (simp add: with_SMTP_def smtp_call_def split: prod.splits sum.splits)

lemma session_body_frame [simp]:
  "stdin (snd (bind (authenticate a) (\<lambda>_. deliver a m) w)) = stdin w"
  "smtp_ok (snd (bind (authenticate a) (\<lambda>_. deliver a m) w)) = smtp_ok w"
  "log_level (snd (bind (authenticate a) (\<lambda>_. deliver a m) w)) = log_level w"
  by (simp_all add: bind_proj split: sum.splits)

lemma session_body_trace:
  "\<exists>ev. trace (snd (bind (authenticate a) (\<lambda>_. deliver a m) w)) = trace w @ ev
       \<and> (filter is_send_or_sleep ev = []
            \<or> filter is_send_or_sleep ev = [Smtp (SendMessage m (envelope_sender_address a))])
       \<and> (fst (bind (authenticate a) (\<lambda>_. deliver a m) w) = Inr () \<longrightarrow>
            filter is_send_or_sleep ev = [Smtp (SendMessage m (envelope_sender_address a))])"
proof -
  obtain ev1 where ev1: "trace (snd (authenticate a w)) = trace w @ ev1"
      "filter is_send_or_sleep ev1 = []"
    using authenticate_trace by blast
  show ?thesis
  proof (cases "fst (authenticate a w)")
    case (Inl e)
    then have "bind (authenticate a) (\<lambda>_. deliver a m) w = (Inl e, snd (authenticate a w))"
      by (simp add: bind_proj)
    with ev1 show ?thesis by simp
  next
    case (Inr u)
    then have b: "bind (authenticate a) (\<lambda>_. deliver a m) w = deliver a m (snd (authenticate a w))"
      by (simp add: bind_proj)
    obtain ev2 where ev2: "trace (snd (deliver a m (snd (authenticate a w))))
                            = trace (snd (authenticate a w)) @ ev2"
      "filter is_send_or_sleep ev2 = [Smtp (SendMessage m (envelope_sender_address a))]"
      using deliver_trace by blast
    have "trace (snd (bind (authenticate a) (\<lambda>_. deliver a m) w)) = trace w @ (ev1 @ ev2)"
      using b ev1 ev2 by simp
    moreover have "filter is_send_or_sleep (ev1 @ ev2)
                     = [Smtp (SendMessage m (envelope_sender_address a))]"
      using ev1 ev2 by simp
    ultimately show ?thesis by blast
  qed
qed


lemma session_frame [simp]:
  "stdin (snd (session a m w)) = stdin w"
  "smtp_ok (snd (session a m w)) = smtp_ok w"
  "log_level (snd (session a m w)) = log_level w"
  by (simp_all add: session_def with_SMTP_proj)

lemma session_trace:
  "\<exists>ev. trace (snd (session a m w)) = trace w @ ev
       \<and> (filter is_send_or_sleep ev = []
            \<or> filter is_send_or_sleep ev = [Smtp (SendMessage m (envelope_sender_address a))])
       \<and> (fst (session a m w) = Inr () \<longrightarrow>
            filter is_send_or_sleep ev = [Smtp (SendMessage m (envelope_sender_address a))])"
proof (cases "smtp_ok w (length (trace w)) (Connect (smtp_server a) (smtp_port a))")
  case False
  then have "trace (snd (session a m w)) = trace w @ [Smtp (Connect (smtp_server a) (smtp_port a))]"
    "fst (session a m w) \<noteq> Inr ()"
    by (simp_all add: session_def with_SMTP_proj)
  then show ?thesis by simp
next
  case True
  let ?w1 = "emit (Smtp (Connect (smtp_server a) (smtp_port a))) w"
  let ?b = "bind (authenticate a) (\<lambda>_. deliver a m)"
  obtain ev where ev: "trace (snd (?b ?w1)) = trace ?w1 @ ev"
    "filter is_send_or_sleep ev = []
       \<or> filter is_send_or_sleep ev = [Smtp (SendMessage m (envelope_sender_address a))]"
    "fst (?b ?w1) = Inr () \<longrightarrow>
       filter is_send_or_sleep ev = [Smtp (SendMessage m (envelope_sender_address a))]"
    using session_body_trace by blast
  have t: "trace (snd (session a m w))
          = trace w @ (Smtp (Connect (smtp_server a) (smtp_port a)) # ev @ [Smtp Quit])"
    using True ev(1) by (simp add: session_def with_SMTP_proj)
  have f: "filter is_send_or_sleep (Smtp (Connect (smtp_server a) (smtp_port a)) # ev @ [Smtp Quit])
          = filter is_send_or_sleep ev" by simp
  have r: "fst (session a m w) = Inr () \<longrightarrow> fst (?b ?w1) = Inr ()"
    using True by (simp add: session_def with_SMTP_proj)
  show ?thesis
  proof (intro exI conjI)
    show "trace (snd (session a m w))
          = trace w @ (Smtp (Connect (smtp_server a) (smtp_port a)) # ev @ [Smtp Quit])"
      by (rule t)
    show "filter is_send_or_sleep (Smtp (Connect (smtp_server a) (smtp_port a)) # ev @ [Smtp Quit]) = []
          \<or> filter is_send_or_sleep (Smtp (Connect (smtp_server a) (smtp_port a)) # ev @ [Smtp Quit])
              = [Smtp (SendMessage m (envelope_sender_address a))]"
      using ev(2) by simp
    show "fst (session a m w) = Inr () \<longrightarrow>
          filter is_send_or_sleep (Smtp (Connect (smtp_server a) (smtp_port a)) # ev @ [Smtp Quit])
              = [Smtp (SendMessage m (envelope_sender_address a))]"
      using r ev(3) by simp
  qed
qed


lemma send_email_proj:
  "send_email r a rv w =
     (case resolved_body a rv of
        Inl e \<Rightarrow> (Inl e, case rv of None \<Rightarrow> w | Some d \<Rightarrow> snd (replace_placeholders (email_body a) d w))
      | Inr body \<Rightarrow> session a (build_message r a body)
                     (case rv of None \<Rightarrow> w | Some d \<Rightarrow> snd (replace_placeholders (email_body a) d w)))"
  by (simp add: send_email_def resolved_body_def bind_proj session_def split: option.splits sum.splits)

lemma send_email_frame [simp]:
  "stdin (snd (send_email r a rv w)) = stdin w"
  "smtp_ok (snd (send_email r a rv w)) = smtp_ok w"
  "log_level (snd (send_email r a rv w)) = log_level w"
  by (simp_all add: send_email_proj split: option.splits sum.splits)

lemma send_email_trace:
  "\<exists>ev. trace (snd (send_email r a rv w)) = trace w @ ev
       \<and> (case resolved_body a rv of
             Inl e \<Rightarrow> filter is_send_or_sleep ev = [] \<and> fst (send_email r a rv w) = Inl e
           | Inr body \<Rightarrow>
               (filter is_send_or_sleep ev = [] \<or> filter is_send_or_sleep ev = [the_send r a body])
               \<and> (fst (send_email r a rv w) = Inr () \<longrightarrow>
                    filter is_send_or_sleep ev = [the_send r a body]))"
proof -
  let ?w0 = "case rv of None \<Rightarrow> w | Some d \<Rightarrow> snd (replace_placeholders (email_body a) d w)"
  obtain ev0 where ev0: "trace ?w0 = trace w @ ev0" "filter is_send_or_sleep ev0 = []"
  proof (cases rv)
    case None
    then have "trace ?w0 = trace w @ []" by simp
    then show ?thesis using that by force
  next
    case (Some d)
    then show ?thesis using replace_placeholders_trace [of "email_body a" d w] filter_logs that
      by auto
  qed
  show ?thesis
  proof (cases "resolved_body a rv")
    case (Inl e)
    then show ?thesis using ev0 by (simp add: send_email_proj)
  next
    case (Inr body)
    let ?m = "build_message r a body"
    obtain ev where ev: "trace (snd (session a ?m ?w0)) = trace ?w0 @ ev"
      "filter is_send_or_sleep ev = [] \<or> filter is_send_or_sleep ev = [the_send r a body]"
      "fst (session a ?m ?w0) = Inr () \<longrightarrow> filter is_send_or_sleep ev = [the_send r a body]"
      using session_trace [of a ?m ?w0] unfolding the_send_def by blast
    have "trace (snd (send_email r a rv w)) = trace w @ (ev0 @ ev)"
      using Inr ev0 ev(1) by (simp add: send_email_proj)
    moreover have "filter is_send_or_sleep (ev0 @ ev) = filter is_send_or_sleep ev"
      using ev0 by simp
    moreover have "fst (send_email r a rv w) = fst (session a ?m ?w0)"
      using Inr by (simp add: send_email_proj)
    ultimately have "trace (snd (send_email r a rv w)) = trace w @ (ev0 @ ev)
        \<and> (filter is_send_or_sleep (ev0 @ ev) = []
             \<or> filter is_send_or_sleep (ev0 @ ev) = [the_send r a body])
        \<and> (fst (send_email r a rv w) = Inr () \<longrightarrow>
             filter is_send_or_sleep (ev0 @ ev) = [the_send r a body])"
      using ev(2,3) by simp
    then show ?thesis unfolding Inr sum.case by (rule exI)
  qed
qed


lemma sent_filter: "sent (filter is_send_or_sleep ev) = sent ev"
  by (induction ev rule: sent.induct) auto

lemma new_events_append: "trace w' = trace w @ ev \<Longrightarrow> new_events w w' = ev"
  by (simp add: new_events_def)

lemma send_email_sent:
  "(sent (new_events w (snd (send_email r a rv w))) = []
    \<or> (\<exists>body. resolved_body a rv = Inr body
          \<and> sent (new_events w (snd (send_email r a rv w)))
              = [(build_message r a body, envelope_sender_address a)]))
   \<and> (fst (send_email r a rv w) = Inr () \<longrightarrow>
         (\<exists>body. resolved_body a rv = Inr body
          \<and> sent (new_events w (snd (send_email r a rv w)))
              = [(build_message r a body, envelope_sender_address a)]))"
proof -
  obtain ev where ev: "trace (snd (send_email r a rv w)) = trace w @ ev"
    and c: "case resolved_body a rv of
             Inl e \<Rightarrow> filter is_send_or_sleep ev = [] \<and> fst (send_email r a rv w) = Inl e
           | Inr body \<Rightarrow>
               (filter is_send_or_sleep ev = [] \<or> filter is_send_or_sleep ev = [the_send r a body])
               \<and> (fst (send_email r a rv w) = Inr () \<longrightarrow>
                    filter is_send_or_sleep ev = [the_send r a body])"
    using send_email_trace by blast
  have n: "new_events w (snd (send_email r a rv w)) = ev"
    using ev by (rule new_events_append)
  show ?thesis
  proof (cases "resolved_body a rv")
    case (Inl e)
    with c have "sent (filter is_send_or_sleep ev) = []" "fst (send_email r a rv w) \<noteq> Inr ()"
      by simp_all
    then show ?thesis using n by (simp add: sent_filter)
  next
    case (Inr body)
    with c have d: "filter is_send_or_sleep ev = [] \<or> filter is_send_or_sleep ev = [the_send r a body]"
      and s: "fst (send_email r a rv w) = Inr () \<longrightarrow> filter is_send_or_sleep ev = [the_send r a body]"
      by simp_all
    have e: "filter is_send_or_sleep ev = [] \<Longrightarrow> sent ev = []"
      using sent_filter [of ev] by simp
    have f: "filter is_send_or_sleep ev = [the_send r a body]
             \<Longrightarrow> sent ev = [(build_message r a body, envelope_sender_address a)]"
      using sent_filter [of ev] by (simp add: the_send_def)
    show ?thesis using d s e f n Inr by auto
  qed
qed


subsection \<open>No step touches the clock\<close>

lemma monotonic_ns_emit [simp]: "monotonic_ns (emit e w) = monotonic_ns w"
  by (simp add: emit_def)

lemma monotonic_ns_log [simp]: "monotonic_ns (log lvl msg w) = monotonic_ns w"
  by (simp add: log_def emit_def)

lemma replace_placeholders_monotonic_ns [simp]:
  "monotonic_ns (snd (replace_placeholders b d w)) = monotonic_ns w"
  by (induction b d w rule: replace_placeholders.induct) (simp_all add: Let_def split: pyval.splits)

lemma authenticate_monotonic_ns [simp]: "monotonic_ns (snd (authenticate a w)) = monotonic_ns w"
  by (simp add: authenticate_def bind_proj fst_smtp_call snd_smtp_call split: option.splits)

lemma deliver_monotonic_ns [simp]: "monotonic_ns (snd (deliver a m w)) = monotonic_ns w"
  by (simp add: deliver_def snd_smtp_call)

lemma session_body_monotonic_ns [simp]:
  "monotonic_ns (snd (bind (authenticate a) (\<lambda>_. deliver a m) w)) = monotonic_ns w"
  by (simp add: bind_proj split: sum.splits)

lemma session_monotonic_ns [simp]: "monotonic_ns (snd (session a m w)) = monotonic_ns w"
  by (simp add: session_def with_SMTP_proj)

lemma send_email_monotonic_ns [simp]: "monotonic_ns (snd (send_email r a rv w)) = monotonic_ns w"
  by (simp add: send_email_proj split: option.splits sum.splits)
section \<open>Recipient dictionaries and the sending loop\<close>

lemma map_fst_dict_set:
  "map fst (dict_set k v d) = (if k \<in> set (map fst d) then map fst d else map fst d @ [k])"
  by (induction d) force+

lemma keys_dict_set: "fst ` set (dict_set k v d) = insert k (fst ` set d)"
proof -
  have "set (map fst (dict_set k v d)) = insert k (set (map fst d))"
    by (auto simp: map_fst_dict_set)
  then show ?thesis by (simp only: set_map)
qed


lemma keys_foldl_zip:
  "fst ` set (foldl (\<lambda>d (k, v). dict_set (Some k) (Str v) d) d0 ps)
     = fst ` set d0 \<union> Some ` fst ` set ps"
proof (induction ps arbitrary: d0)
  case Nil
  then show ?case by simp
next
  case (Cons p ps)
  obtain k v where p: "p = (k, v)" by (cases p)
  have "fst ` set (foldl (\<lambda>d (k, v). dict_set (Some k) (Str v) d) d0 (p # ps))
          = insert (Some k) (fst ` set d0) \<union> Some ` fst ` set ps"
    using Cons.IH [of "dict_set (Some k) (Str v) d0"] p by (simp add: keys_dict_set)
  then show ?case using p by auto
qed


lemma keys_foldl_rest:
  "fst ` set (foldl (\<lambda>d k. dict_set (Some k) NoneV d) d0 ks) = fst ` set d0 \<union> Some ` set ks"
proof (induction ks arbitrary: d0)
  case Nil
  then show ?case by simp
next
  case (Cons k ks)
  have "fst ` set (foldl (\<lambda>d k. dict_set (Some k) NoneV d) d0 (k # ks))
          = insert (Some k) (fst ` set d0) \<union> Some ` set ks"
    using Cons.IH [of "dict_set (Some k) NoneV d0"] by (simp add: keys_dict_set)
  then show ?case by auto
qed

lemma fst_set_zip: "fst ` set (zip xs ys) = set (take (length ys) xs)"
proof -
  have "fst ` set (zip xs ys) = set (map fst (zip xs ys))" by simp
  also have "\<dots> = set (take (min (length xs) (length ys)) xs)" by (simp only: map_fst_zip_take)
  also have "\<dots> = set (take (length ys) xs)" by (simp add: min_def)
  finally show ?thesis .
qed

lemma keys_dict_row:
  "Some k \<in> fst ` set (dict_row fieldnames row) \<longleftrightarrow> k \<in> set fieldnames"
proof -
  have u: "set (take (length row) fieldnames) \<union> set (drop (length row) fieldnames) = set fieldnames"
    by (metis append_take_drop_id set_append)
  show ?thesis
  proof (cases "length fieldnames < length row")
    case True
    then show ?thesis
      by (auto simp: dict_row_def Let_def keys_dict_set keys_foldl_zip fst_set_zip)
  next
    case False
    show ?thesis
    proof (cases "length fieldnames > length row")
      case True
      then have "fst ` set (dict_row fieldnames row)
          = Some ` set (take (length row) fieldnames) \<union> Some ` set (drop (length row) fieldnames)"
        by (simp add: dict_row_def Let_def keys_foldl_rest keys_foldl_zip fst_set_zip)
      also have "\<dots> = Some ` set fieldnames" using u by blast
      finally show ?thesis by auto
    next
      case False
      with \<open>\<not> length fieldnames < length row\<close> show ?thesis
        by (auto simp: dict_row_def Let_def keys_foldl_zip fst_set_zip)
    qed
  qed
qed

lemma lookup_dict_row:
  "map_of (dict_row fieldnames row) (Some k) = None \<longleftrightarrow> k \<notin> set fieldnames"
  using keys_dict_row [of k fieldnames row] by (simp add: map_of_eq_None_iff)





lemma level_no_le_ERROR [simp]: "level_no l \<le> 40"
  by (cases l) simp_all

lemma DictReader_empty:
  "filter (\<lambda>row. row \<noteq> []) (drop 1 recipient_rows) = [] \<Longrightarrow> DictReader recipient_rows = []"
  by (cases recipient_rows) (simp_all add: DictReader_def)

lemma hd_DictReader:
  "DictReader (fieldnames # rest) \<noteq> []
   \<Longrightarrow> \<exists>row. hd (DictReader (fieldnames # rest)) = dict_row fieldnames row"
  by (cases "filter (\<lambda>row. row \<noteq> []) rest") (auto simp: DictReader_def)

section \<open>The From header with a hidden address\<close>

text \<open>
  C1 (as amended). With \<^verbatim>\<open>hide_source_email\<close> set, for every display name and every
  sender address, the From header of the message is: a double quote, the display name,
  one separating space, a padding of exactly 200 spaces (so 201 spaces in all between
  the name and the pipe), a pipe character, the closing double quote, a space, and the
  true sender address in angle brackets.
\<close>

theorem from_header_hidden:
  \<open>hide_source_email a \<Longrightarrow>
   map_of (headers (build_message r a body)) ''From''
     = Some (Str (''"'' @ sender_display_name a @ '' '' @ replicate 200 CHR '' '' @ ''|''
                  @ ''" <'' @ sender_address a @ ''>''))\<close>
  by (simp add: build_message_def build_headers_def from_header_def space_hack_def)

theorem from_header_hidden_witness:
  \<open>hide_source_email example_args \<and>
   map_of (headers (build_message (Str ''a@x.com'') example_args ''Hi'')) ''From''
     = Some (Str (''"Bob '' @ replicate 200 CHR '' '' @ ''|" <bob@example.com>''))\<close>
  using from_header_hidden [of example_args "Str ''a@x.com''" "''Hi''"]
  by (simp add: example_args_def)

text \<open>
  C1 as stated fails: for the display name Bob, the header does not contain the name
  followed by a run of exactly 200 spaces and the pipe, because the format string puts
  one more space between the name and the padding.
\<close>

theorem from_header_hidden_counterexample:
  \<open>\<not> sublist (''Bob'' @ replicate 200 CHR '' '' @ ''|'') (from_header example_args)\<close>
  by code_simp

section \<open>Template substitution\<close>

lemma prefix_snoc_dollar:
  assumes "CHR ''$'' \<notin> set new" "\<not> sublist new p"
  shows "\<not> prefix (p @ ''$'') (new @ r)"
proof
  assume "prefix (p @ ''$'') (new @ r)"
  then have "prefix (p @ ''$'') new \<or> prefix new (p @ ''$'')"
    using prefix_same_cases [of "p @ ''$''" "new @ r" new] by auto
  then show False
  proof
    assume "prefix (p @ ''$'') new"
    then have "set (p @ ''$'') \<subseteq> set new" by (rule set_mono_prefix)
    with assms(1) show False by simp
  next
    assume "prefix new (p @ ''$'')"
    then have "new = p @ ''$'' \<or> prefix new p" by (simp add: prefix_snoc)
    with assms show False by auto
  qed
qed

lemma prefix_str_replace_dollar:
  assumes "CHR ''$'' \<notin> set new" "old \<noteq> []"
  shows "\<not> sublist new p \<Longrightarrow> prefix (p @ ''$'') (str_replace s old new) \<Longrightarrow> prefix (p @ ''$'') s"
  using assms
proof (induction s old new arbitrary: p rule: str_replace.induct)
  case (1 old new)
  then show ?case by simp
next
  case (2 c cs old new)
  show ?case
  proof (cases "prefix old (c # cs)")
    case True
    with 2 prefix_snoc_dollar [of new p] show ?thesis by simp
  next
    case False
    with 2 have pr: "prefix (p @ ''$'') (c # str_replace cs old new)" by simp
    show ?thesis
    proof (cases p)
      case Nil
      with pr show ?thesis by simp
    next
      case (Cons x p')
      with pr have x: "x = c" and pr': "prefix (p' @ ''$'') (str_replace cs old new)" by simp_all
      have "\<not> sublist new p'" using "2.prems"(1) Cons by (auto simp: sublist_Cons_right)
      with "2.IH"(3) [of p'] False "2.prems" pr' have "prefix (p' @ ''$'') cs" by simp
      with x Cons show ?thesis by simp
    qed
  qed
qed

lemma not_sublist_value_append:
  assumes "CHR ''$'' \<notin> set new" "\<not> sublist (CHR ''$'' # k) r"
  shows "\<not> sublist (CHR ''$'' # k) (new @ r)"
proof
  assume "sublist (CHR ''$'' # k) (new @ r)"
  then consider "sublist (CHR ''$'' # k) new" | "sublist (CHR ''$'' # k) r"
    | x1 x2 where "CHR ''$'' # k = x1 @ x2" "suffix x1 new" "prefix x2 r"
    by (auto simp: sublist_append)
  then show False
  proof cases
    case 1
    then have "set (CHR ''$'' # k) \<subseteq> set new" by (rule set_mono_sublist)
    with assms(1) show ?thesis by simp
  next
    case 2
    with assms(2) show ?thesis by simp
  next
    case 3
    show ?thesis
    proof (cases x1)
      case Nil
      with 3 assms(2) show ?thesis by auto
    next
      case (Cons y ys)
      with 3 have "y = CHR ''$''" by simp
      moreover have "set x1 \<subseteq> set new" using 3(2) by (rule set_mono_suffix)
      ultimately show ?thesis using Cons assms(1) by auto
    qed
  qed
qed

lemma str_replace_no_token:
  assumes "CHR ''$'' \<notin> set new" "\<not> sublist new k" "old \<noteq> []"
  shows "old = ''$'' @ k @ ''$'' \<or> \<not> sublist (''$'' @ k @ ''$'') s
         \<Longrightarrow> \<not> sublist (''$'' @ k @ ''$'') (str_replace s old new)"
  using assms
proof (induction s old new rule: str_replace.induct)
  case (1 old new)
  then show ?case by simp
next
  case (2 c cs old new)
  let ?t = "''$'' @ k @ ''$''"
  have new_p: "\<not> sublist new (CHR ''$'' # k)"
    using "2.prems" by (cases new) (auto simp: sublist_Cons_right)
  show ?case
  proof (cases "prefix old (c # cs)")
    case True
    have "old = ?t \<or> \<not> sublist ?t (drop (length old) (c # cs))"
      using "2.prems"(1) sublist_drop [of "length old" "c # cs"] sublist_order.order_trans by blast
    with "2.IH"(2) True "2.prems" have "\<not> sublist ?t (str_replace (drop (length old) (c # cs)) old new)"
      by simp
    with not_sublist_value_append [of new "k @ ''$''"] "2.prems" True show ?thesis by simp
  next
    case False
    have "old = ?t \<or> \<not> sublist ?t cs"
      using "2.prems"(1) by (auto simp: sublist_Cons_right)
    with "2.IH"(3) False "2.prems" have ih: "\<not> sublist ?t (str_replace cs old new)" by simp
    have "\<not> prefix ?t (str_replace (c # cs) old new)"
    proof
      assume "prefix ?t (str_replace (c # cs) old new)"
      with prefix_str_replace_dollar [OF "2.prems"(2) "2.prems"(4) new_p, of "c # cs"]
      have "prefix ?t (c # cs)" by (auto simp del: str_replace.simps)
      with "2.prems"(1) False show False by auto
    qed
    with ih False "2.prems" show ?thesis by (simp add: sublist_Cons_right)
  qed
qed

lemma replace_placeholders_str_items:
  "fst (replace_placeholders B (str_items M) w)
     = Inr (foldl (\<lambda>b (k, v). str_replace b (replacement_egg (Some k)) v) B M)"
  by (induction M arbitrary: B w) (auto simp: str_items_def Let_def)

lemma foldl_str_replace_no_token:
  assumes "\<forall>v \<in> snd ` set M. CHR ''$'' \<notin> set v \<and> (\<forall>k \<in> K \<union> fst ` set M. \<not> sublist v k)"
    and "\<forall>k \<in> K. \<not> sublist (replacement_egg (Some k)) B"
  shows "\<forall>k \<in> K \<union> fst ` set M.
           \<not> sublist (replacement_egg (Some k))
               (foldl (\<lambda>b (k, v). str_replace b (replacement_egg (Some k)) v) B M)"
  using assms
proof (induction M arbitrary: B K)
  case Nil
  then show ?case by simp
next
  case (Cons kv M)
  obtain k1 v1 where kv: "kv = (k1, v1)" by (cases kv)
  let ?B = "str_replace B (replacement_egg (Some k1)) v1"
  have v1: "CHR ''$'' \<notin> set v1" and v1k: "\<And>k. k \<in> insert k1 K \<Longrightarrow> \<not> sublist v1 k"
    using Cons.prems(1) kv by auto
  have "\<forall>k \<in> insert k1 K. \<not> sublist (replacement_egg (Some k)) ?B"
  proof
    fix k assume k: "k \<in> insert k1 K"
    have "replacement_egg (Some k1) = ''$'' @ k @ ''$''
          \<or> \<not> sublist (''$'' @ k @ ''$'') B"
      using k Cons.prems(2) by (auto simp: replacement_egg_def)
    from str_replace_no_token [OF v1 v1k [OF k] _ this]
    show "\<not> sublist (replacement_egg (Some k)) ?B"
      by (simp add: replacement_egg_def)
  qed
  moreover have "\<forall>v \<in> snd ` set M. CHR ''$'' \<notin> set v
                   \<and> (\<forall>k \<in> insert k1 K \<union> fst ` set M. \<not> sublist v k)"
    using Cons.prems(1) kv by auto
  ultimately have "\<forall>k \<in> insert k1 K \<union> fst ` set M.
           \<not> sublist (replacement_egg (Some k))
               (foldl (\<lambda>b (k, v). str_replace b (replacement_egg (Some k)) v) ?B M)"
    using Cons.IH [of "insert k1 K" ?B] by simp
  then show ?case using kv by simp
qed

text \<open>
  C2 (as amended). For every body B and every mapping M from keys to string values in
  which no value contains the character \<^verbatim>\<open>$\<close> and no value occurs as a contiguous
  substring of a key of M (so no value is empty), the substitution succeeds and its result
  contains no occurrence of the token \<^verbatim>\<open>$k$\<close> for any key k of M.
\<close>

theorem replace_placeholders_full:
  assumes "\<forall>v \<in> snd ` set M. CHR ''$'' \<notin> set v \<and> (\<forall>k \<in> fst ` set M. \<not> sublist v k)"
  shows "\<exists>r. fst (replace_placeholders B (str_items M) w) = Inr r
            \<and> (\<forall>k \<in> fst ` set M. \<not> sublist (replacement_egg (Some k)) r)"
  using foldl_str_replace_no_token [of M "{}" B] assms
  by (simp add: replace_placeholders_str_items del: replace_placeholders_fst)

theorem replace_placeholders_full_witness:
  "fst (replace_placeholders ''Hi $Name$ of $City$'' 
          (str_items [(''Name'', ''Alice''), (''City'', ''Oslo'')]) (example_world []))
     = Inr ''Hi Alice of Oslo''
   \<and> \<not> sublist ''$Name$'' ''Hi Alice of Oslo'' \<and> \<not> sublist ''$City$'' ''Hi Alice of Oslo''"
proof -
  have h: "\<forall>v \<in> snd ` set [(''Name'', ''Alice''), (''City'', ''Oslo'')].
             CHR ''$'' \<notin> set v
             \<and> (\<forall>k \<in> fst ` set [(''Name'', ''Alice''), (''City'', ''Oslo'')]. \<not> sublist v k)"
    by (simp add: sublist_Cons_right)
  have e: "fst (replace_placeholders ''Hi $Name$ of $City$'' 
          (str_items [(''Name'', ''Alice''), (''City'', ''Oslo'')]) (example_world []))
     = Inr ''Hi Alice of Oslo''"
    by (simp add: str_items_def example_world_def log_def replacement_egg_def)
  from replace_placeholders_full [OF h, of "''Hi $Name$ of $City$''" "example_world []"] e
  show ?thesis by (simp add: replacement_egg_def)
qed

text \<open>
  C2 as stated fails: the loop replaces each key once, in order, and never looks again at
  what a replacement produced. A value that is itself the token leaves the token in the
  result, and an empty value can join the text around it into a new token.
\<close>

theorem replace_placeholders_full_counterexample:
  "fst (replace_placeholders ''Hi $Name$'' (str_items [(''Name'', ''$Name$'')]) (example_world []))
     = Inr ''Hi $Name$''
   \<and> sublist (replacement_egg (Some ''Name'')) ''Hi $Name$''
   \<and> fst (replace_placeholders ''$$a$a$'' (str_items [(''a'', '''')]) (example_world []))
     = Inr ''$a$''
   \<and> sublist (replacement_egg (Some ''a'')) ''$a$''"
  by (simp add: str_items_def example_world_def log_def replacement_egg_def sublist_Cons_right)

section \<open>Envelope sender and From header\<close>

subsection \<open>The parser returns on every field\<close>






















subsection \<open>The parser on the From header of a plain name and address\<close>



lemma gotonext_stay:
  "c \<notin> set (LWS @ [CHR 0x0A, CHR 0x0D]) \<Longrightarrow> c \<noteq> CHR ''('' \<Longrightarrow> gotonext (c # cs) = ([], c # cs)"
  by simp


























subsection \<open>The envelope sender of a message sent\<close>






section \<open>Headers and attachment are not templated\<close>

text \<open>
  C10. Whatever replacement values are given, every message \<^verbatim>\<open>send_email\<close> hands over
  has the Subject, To, From, X-Priority and CC headers exactly as the configuration and the
  recipient address give them, and the attachment part exactly as the file gives it; only
  the text part holds the substituted body. A \<^verbatim>\<open>$key$\<close> token in the subject, in a header
  or in the attachment stays as it is.
\<close>

theorem headers_not_substituted:
  \<open>\<forall>m f. (m, f) \<in> set (sent (new_events w (snd (send_email r a rv w)))) \<longrightarrow>
       headers m =
         [(''Subject'', Str (email_subject a)),
          (''To'', r),
          (''From'', Str (from_header a)),
          (''X-Priority'', Str (message_priority a))]
         @ (case cc_display_name a of
              None \<Rightarrow> []
            | Some cc \<Rightarrow> [(''CC'', Str (''"'' @ cc @ ''" <>''))])
     \<and> (\<exists>body. resolved_body a rv = Inr body
          \<and> parts m =
               MIMEText body (message_format a)
               # (case email_attachment a of
                    None \<Rightarrow> []
                  | Some (name, content) \<Rightarrow>
                      [MIMEBase content (''attachment; filename= '' @ basename name)]))\<close>
  using send_email_sent [of w r a rv]
  by (auto simp: build_message_def build_headers_def build_parts_def)

theorem headers_not_substituted_witness:
  \<open>map (\<lambda>(m, f). (map_of (headers m) ''Subject'', map_of (headers m) ''CC'', parts m))
     (sent (new_events (example_world [])
        (snd (send_email (Str ''a@x.com'')
               (example_args\<lparr>cc_display_name := Some ''$Name$'',
                              email_attachment := Some (''/tmp/$Name$.pdf'', ''%PDF $Name$'')\<rparr>)
               (Some [(Some ''EmailAddress'', Str ''a@x.com''), (Some ''Name'', Str ''Alice'')])
               (example_world [])))))
     = [(Some (Str ''Offer for $Name$''), Some (Str ''"$Name$" <>''),
         [MIMEText ''Hi Alice'' ''html'',
          MIMEBase ''%PDF $Name$'' ''attachment; filename= $Name$.pdf''])]\<close>
  using headers_not_substituted [of "example_world []" "Str ''a@x.com''"
      "example_args\<lparr>cc_display_name := Some ''$Name$'',
                     email_attachment := Some (''/tmp/$Name$.pdf'', ''%PDF $Name$'')\<rparr>"
      "Some [(Some ''EmailAddress'', Str ''a@x.com''), (Some ''Name'', Str ''Alice'')]"]
  by (simp add: send_email_def bind_def with_SMTP_def authenticate_def deliver_def smtp_call_def
        log_def emit_def new_events_def example_world_def example_args_def build_message_def
        build_headers_def build_parts_def basename_def replacement_egg_def Let_def)

section \<open>The confirmation prompt\<close>

lemma lower_char_eq_y: "lower_char c = CHR ''y'' \<longleftrightarrow> c = CHR ''y'' \<or> c = CHR ''Y''"
  by (simp add: lower_char_def)

lemma lower_char_eq_n: "lower_char c = CHR ''n'' \<longleftrightarrow> c = CHR ''n'' \<or> c = CHR ''N''"
  by (simp add: lower_char_def)

lemma lower_eq_y: "lower s = ''y'' \<longleftrightarrow> s = ''y'' \<or> s = ''Y''"
  by (cases s) (auto simp: lower_def lower_char_eq_y)

lemma lower_eq_n: "lower s = ''n'' \<longleftrightarrow> s = ''n'' \<or> s = ''N''"
  by (cases s) (auto simp: lower_def lower_char_eq_n)

lemma lower_eq_Nil: "lower s = [] \<longleftrightarrow> s = []"
  by (simp add: lower_def)

lemma confirm_loop_unbound:
  "confirm_loop question None dflt w = (Inl UnboundLocalError, w)"
  by (simp add: confirm_loop.simps)

lemma confirm_loop_bound:
  "fst (confirm_loop question (Some p) dflt w) \<noteq> Inl UnboundLocalError"
proof (induction question "Some p" dflt w rule: confirm_loop.induct)
  case (1 question dflt w)
  show ?case
    using 1
    apply (subst confirm_loop.simps)
    apply (auto simp: input_def Let_def split: list.splits prod.splits sum.splits)
    done
qed

lemma confirm_loop_step:
  assumes "stdin w = line # rest"
  shows "confirm_loop question (Some p) dflt w =
           (if lower line = dflt \<or> lower line = '''' then (Inr True, asked question p w)
            else if (lower line = ''y'' \<or> lower line = ''n'') \<and> lower line \<noteq> dflt
                 then (Inr False, asked question p w)
            else confirm_loop question (Some p) dflt
                   (log WARNING ''Invalid input supplied'' (asked question p w)))"
  using assms
  by (subst confirm_loop.simps) (simp add: input_def asked_def Let_def emit_def)

lemma stdin_asked [simp]: "stdin (asked question p w) = tl (stdin w)"
  by (simp add: asked_def emit_def)

lemma confirm_loop_until_valid:
  assumes "dflt = ''y'' \<or> dflt = ''n''"
    and "stdin w = bad @ good # rest"
    and "\<forall>l \<in> set bad. \<not> valid_answer l"
    and "valid_answer good"
  shows "\<exists>w'. confirm_loop question (Some p) dflt w = (Inr (good = '''' \<or> lower good = dflt), w')
              \<and> stdin w' = rest"
  using assms(2,3)
proof (induction bad arbitrary: w)
  case Nil
  then have s: "stdin w = good # rest" by simp
  have "confirm_loop question (Some p) dflt w
          = (Inr (good = '''' \<or> lower good = dflt), asked question p w)"
    using confirm_loop_step [OF s, of question p dflt] assms(1,4)
    by (auto simp: valid_answer_def lower_eq_Nil)
  then show ?case using s by simp
next
  case (Cons b bad)
  then have s: "stdin w = b # (bad @ good # rest)" and nb: "\<not> valid_answer b" by simp_all
  let ?w = "log WARNING ''Invalid input supplied'' (asked question p w)"
  have "stdin ?w = bad @ good # rest" using s by simp
  with Cons obtain w' where
    "confirm_loop question (Some p) dflt ?w = (Inr (good = '''' \<or> lower good = dflt), w')"
    "stdin w' = rest"
    by fastforce
  moreover have "confirm_loop question (Some p) dflt w = confirm_loop question (Some p) dflt ?w"
    using confirm_loop_step [OF s] nb assms(1)
    by (auto simp: valid_answer_def)
  ultimately show ?case by simp
qed

text \<open>
  C5. For the defaults y and n: one line is read and lower-cased (so Y and y, N and n
  are the same answer); the empty line or the default returns True; the other of y and n
  returns False; any other line returns nothing and the prompt is run again on the rest
  of the input, with a warning logged; and so, after any number of invalid lines, the
  first valid line decides and the lines after it are left unread.
\<close>

theorem confirm_action_decision:
  assumes "dflt = ''y'' \<or> dflt = ''n''"
  shows "(lower line = ''y'' \<longleftrightarrow> line = ''y'' \<or> line = ''Y'')
       \<and> (lower line = ''n'' \<longleftrightarrow> line = ''n'' \<or> line = ''N'')
       \<and> (stdin w = line # rest \<longrightarrow>
            confirm_action question dflt w =
              (if line = '''' \<or> lower line = dflt
                 then (Inr True, asked question (the (prompt_for dflt)) w)
               else if lower line = (if dflt = ''y'' then ''n'' else ''y'')
                 then (Inr False, asked question (the (prompt_for dflt)) w)
               else confirm_action question dflt
                      (log WARNING ''Invalid input supplied''
                         (asked question (the (prompt_for dflt)) w))))
       \<and> (stdin w = bad @ good # rest \<and> (\<forall>l \<in> set bad. \<not> valid_answer l) \<and> valid_answer good \<longrightarrow>
            fst (confirm_action question dflt w) = Inr (good = '''' \<or> lower good = dflt)
            \<and> stdin (snd (confirm_action question dflt w)) = rest)"
proof -
  obtain p where p: "prompt_for dflt = Some p"
    using assms by (auto simp: prompt_for_def)
  have step: "stdin w = line # rest \<Longrightarrow>
      confirm_action question dflt w =
              (if line = '''' \<or> lower line = dflt
                 then (Inr True, asked question p w)
               else if lower line = (if dflt = ''y'' then ''n'' else ''y'')
                 then (Inr False, asked question p w)
               else confirm_action question dflt
                      (log WARNING ''Invalid input supplied'' (asked question p w)))"
    using assms by (auto simp: confirm_action_def p confirm_loop_step lower_eq_Nil)
  have iter: "stdin w = bad @ good # rest \<Longrightarrow> (\<forall>l \<in> set bad. \<not> valid_answer l) \<Longrightarrow> valid_answer good \<Longrightarrow>
            fst (confirm_action question dflt w) = Inr (good = '''' \<or> lower good = dflt)
            \<and> stdin (snd (confirm_action question dflt w)) = rest"
    using confirm_loop_until_valid [OF assms, of w bad good rest question p]
    by (auto simp: confirm_action_def p)
  show ?thesis
    using step iter by (simp add: lower_eq_y lower_eq_n p)
qed

theorem confirm_action_decision_witness:
  "fst (confirm_action ''ok?'' ''y'' (example_world [''maybe'', ''N''])) = Inr False
   \<and> fst (confirm_action ''ok?'' ''y'' (example_world [''maybe'', ''Y''])) = Inr True
   \<and> fst (confirm_action ''ok?'' ''y'' (example_world [''''])) = Inr True"
  using confirm_action_decision [of "''y''" "''N''" "example_world [''maybe'', ''N'']" "[]" "''ok?''" "[''maybe'']" "''N''"]
  confirm_action_decision [of "''y''" "''Y''" "example_world [''maybe'', ''Y'']" "[]" "''ok?''" "[''maybe'']" "''Y''"]
  confirm_action_decision [of "''y''" "''''" "example_world ['''']" "[]" "''ok?''" "[]" "''''"]
  apply (simp add: example_world_def valid_answer_def lower_eq_y lower_eq_n lower_eq_Nil)
  done

text \<open>
  C9. For the defaults y and n the prompt string is bound, and no run ends in
  UnboundLocalError; for every other default it is unbound, and the call fails with
  UnboundLocalError before anything is logged or read.
\<close>

theorem confirm_action_prompt_bound:
  "(dflt = ''y'' \<or> dflt = ''n'' \<longrightarrow>
      prompt_for dflt \<noteq> None \<and> fst (confirm_action question dflt w) \<noteq> Inl UnboundLocalError)
   \<and> (dflt \<noteq> ''y'' \<and> dflt \<noteq> ''n'' \<longrightarrow>
      prompt_for dflt = None \<and> confirm_action question dflt w = (Inl UnboundLocalError, w))"
  by (auto simp: confirm_action_def prompt_for_def confirm_loop_unbound confirm_loop_bound)

theorem confirm_action_prompt_bound_witness:
  "fst (confirm_action ''ok?'' ''y'' (example_world [''maybe'', ''N''])) \<noteq> Inl UnboundLocalError
   \<and> fst (confirm_action ''ok?'' ''n'' (example_world [''maybe'', ''N''])) \<noteq> Inl UnboundLocalError
   \<and> confirm_action ''ok?'' ''yes'' (example_world [''maybe'', ''N''])
       = (Inl UnboundLocalError, example_world [''maybe'', ''N''])"
  using confirm_action_prompt_bound [of "''y''" "''ok?''" "example_world [''maybe'', ''N'']"]
    confirm_action_prompt_bound [of "''n''" "''ok?''" "example_world [''maybe'', ''N'']"]
    confirm_action_prompt_bound [of "''yes''" "''ok?''" "example_world [''maybe'', ''N'']"]
  by simp

section \<open>What the prompt adds to the trace\<close>

lemma prompt_events_no_smtp:
  "\<forall>e \<in> set ev. is_prompt_event e \<Longrightarrow> filter is_smtp ev = [] \<and> filter is_send_or_sleep ev = []"
  by (induction ev rule: sent.induct) auto

lemma log_prompt_event:
  "lvl = INFO \<or> lvl = WARNING \<Longrightarrow>
   \<exists>ev. trace (log lvl msg w) = trace w @ ev \<and> (\<forall>e \<in> set ev. is_prompt_event e)"
  by (auto simp: trace_log)

lemma logs_frame [simp]:
  "stdin (logs lvl msgs w) = stdin w"
  "smtp_ok (logs lvl msgs w) = smtp_ok w"
  "log_level (logs lvl msgs w) = log_level w"
  by (induction msgs arbitrary: w; simp add: logs_def)+

lemma logs_Cons: "logs lvl (m # msgs) w = logs lvl msgs (log lvl m w)"
  by (simp add: logs_def)

lemma logs_prompt_event:
  "lvl = INFO \<or> lvl = WARNING \<Longrightarrow>
   \<exists>ev. trace (logs lvl msgs w) = trace w @ ev \<and> (\<forall>e \<in> set ev. is_prompt_event e)"
proof (induction msgs arbitrary: w)
  case Nil
  then show ?case by (simp add: logs_def)
next
  case (Cons m msgs)
  obtain ev1 where ev1: "trace (log lvl m w) = trace w @ ev1" "\<forall>e \<in> set ev1. is_prompt_event e"
    using log_prompt_event [OF Cons.prems] by blast
  obtain ev2 where ev2: "trace (logs lvl msgs (log lvl m w)) = trace (log lvl m w) @ ev2"
    "\<forall>e \<in> set ev2. is_prompt_event e"
    using Cons.IH [OF Cons.prems] by blast
  have "trace (logs lvl (m # msgs) w) = trace w @ (ev1 @ ev2)"
    using ev1 ev2 by (simp add: logs_Cons)
  moreover have "\<forall>e \<in> set (ev1 @ ev2). is_prompt_event e" using ev1 ev2 by auto
  ultimately show ?case by blast
qed

lemma asked_frame [simp]:
  "smtp_ok (asked question p w) = smtp_ok w"
  "log_level (asked question p w) = log_level w"
  by (simp_all add: asked_def)

lemma asked_prompt_event:
  "\<exists>ev. trace (asked question p w) = trace w @ ev \<and> (\<forall>e \<in> set ev. is_prompt_event e)"
  by (simp add: asked_def trace_log)

lemma confirm_loop_eof:
  "stdin w = [] \<Longrightarrow>
   confirm_loop question (Some p) dflt w
     = (Inl EOFError, emit (Input ''Input -> '') (log INFO (question @ p) w))"
  by (subst confirm_loop.simps) (simp add: input_def)

lemma confirm_loop_trace:
  "smtp_ok (snd (confirm_loop question (Some p) dflt w)) = smtp_ok w
   \<and> log_level (snd (confirm_loop question (Some p) dflt w)) = log_level w
   \<and> (\<exists>ev. trace (snd (confirm_loop question (Some p) dflt w)) = trace w @ ev
          \<and> (\<forall>e \<in> set ev. is_prompt_event e))"
proof (induction "stdin w" arbitrary: w)
  case Nil
  then have "confirm_loop question (Some p) dflt w
     = (Inl EOFError, emit (Input ''Input -> '') (log INFO (question @ p) w))"
    by (simp add: confirm_loop_eof)
  then show ?case by (simp add: trace_log)
next
  case (Cons line rest)
  then have s: "stdin w = line # rest" by simp
  let ?w1 = "asked question p w"
  let ?w2 = "log WARNING ''Invalid input supplied'' ?w1"
  obtain ev1 where ev1: "trace ?w1 = trace w @ ev1" "\<forall>e \<in> set ev1. is_prompt_event e"
    using asked_prompt_event by blast
  consider (now) "snd (confirm_loop question (Some p) dflt w) = ?w1"
    | (again) "confirm_loop question (Some p) dflt w = confirm_loop question (Some p) dflt ?w2"
    using confirm_loop_step [OF s, of question p dflt] by (auto split: if_splits)
  then show ?case
  proof cases
    case now
    then show ?thesis using ev1 by auto
  next
    case again
    have r: "rest = stdin ?w2" using s by simp
    obtain ev2 where ev2: "trace ?w2 = trace ?w1 @ ev2" "\<forall>e \<in> set ev2. is_prompt_event e"
      using log_prompt_event [of WARNING] by blast
    from Cons.hyps(1) [OF r] obtain ev3 where
      ih: "smtp_ok (snd (confirm_loop question (Some p) dflt ?w2)) = smtp_ok ?w2"
        "log_level (snd (confirm_loop question (Some p) dflt ?w2)) = log_level ?w2"
        "trace (snd (confirm_loop question (Some p) dflt ?w2)) = trace ?w2 @ ev3"
        "\<forall>e \<in> set ev3. is_prompt_event e"
      by blast
    have "trace (snd (confirm_loop question (Some p) dflt w)) = trace w @ (ev1 @ ev2 @ ev3)"
      using again ih(3) ev1(1) ev2(1) by simp
    moreover have "\<forall>e \<in> set (ev1 @ ev2 @ ev3). is_prompt_event e"
      using ev1(2) ev2(2) ih(4) by auto
    ultimately show ?thesis using again ih(1,2) by (simp del: set_append)
  qed
qed


lemma logs_monotonic_ns [simp]: "monotonic_ns (logs lvl msgs w) = monotonic_ns w"
  by (induction msgs arbitrary: w) (simp_all add: logs_def)

lemma asked_monotonic_ns [simp]: "monotonic_ns (asked question p w) = monotonic_ns w"
  by (simp add: asked_def)


section \<open>The batch run up to the prompt\<close>

lemma DictReader_valid:
  assumes "recipient_rows = fieldnames # rest" and "''EmailAddress'' \<in> set fieldnames"
    and "filter (\<lambda>row. row \<noteq> []) rest \<noteq> []"
  shows "DictReader recipient_rows = map (dict_row fieldnames) (filter (\<lambda>row. row \<noteq> []) rest)"
    and "\<not> length (DictReader recipient_rows) < 1"
    and "map_of (hd (DictReader recipient_rows)) (Some ''EmailAddress'') \<noteq> None"
proof -
  show d: "DictReader recipient_rows = map (dict_row fieldnames) (filter (\<lambda>row. row \<noteq> []) rest)"
    using assms(1) by (simp add: DictReader_def)
  show "\<not> length (DictReader recipient_rows) < 1" using d assms(3) by simp
  have "hd (DictReader recipient_rows) = dict_row fieldnames (hd (filter (\<lambda>row. row \<noteq> []) rest))"
    using d assms(3) by (simp add: hd_map)
  then show "map_of (hd (DictReader recipient_rows)) (Some ''EmailAddress'') \<noteq> None"
    using assms(2) by (simp add: lookup_dict_row)
qed

lemma at_prompt_frame [simp]:
  "stdin (at_prompt ds w) = stdin w"
  "smtp_ok (at_prompt ds w) = smtp_ok w"
  "log_level (at_prompt ds w) = log_level w"
  by (simp_all add: at_prompt_def)

lemma at_prompt_trace:
  "\<exists>ev. trace (at_prompt ds w) = trace w @ ev \<and> (\<forall>e \<in> set ev. is_prompt_event e)"
proof -
  let ?w1 = "log INFO ''The following %i emails are about to be sent:'' w"
  obtain ev1 where ev1: "trace ?w1 = trace w @ ev1" "\<forall>e \<in> set ev1. is_prompt_event e"
    using log_prompt_event [of INFO] by blast
  obtain ev2 where ev2: "trace (logs INFO (review_lines ds) ?w1) = trace ?w1 @ ev2"
    "\<forall>e \<in> set ev2. is_prompt_event e"
    using logs_prompt_event [of INFO] by blast
  have "trace (at_prompt ds w) = trace w @ (ev1 @ ev2)" using ev1 ev2 by (simp add: at_prompt_def)
  moreover have "\<forall>e \<in> set (ev1 @ ev2). is_prompt_event e" using ev1 ev2 by auto
  ultimately show ?thesis by blast
qed

lemma send_multiple_emails_valid:
  assumes "recipient_rows = fieldnames # rest" and "''EmailAddress'' \<in> set fieldnames"
    and "filter (\<lambda>row. row \<noteq> []) rest \<noteq> []"
  shows "send_multiple_emails recipient_rows a w =
     (case confirm_action ''Before multiple emails are sent, do these values look correct?'' ''y''
             (at_prompt (DictReader recipient_rows) w) of
        (Inl e, w') \<Rightarrow> (Inl e, w')
      | (Inr answer, w') \<Rightarrow>
          if answer = False
          then (Inl SystemExit, log WARNING ''User termination. Improper values detected.'' w')
          else send_all (DictReader recipient_rows) a w')"
  using DictReader_valid(2,3) [OF assms]
  by (auto simp: send_multiple_emails_def at_prompt_def Let_def)

lemma confirm_y_answer:
  assumes "stdin w = bad @ good # rest" and "\<forall>l \<in> set bad. \<not> valid_answer l" and "valid_answer good"
  shows "\<exists>w' ev. confirm_action question ''y'' w = (Inr (good = '''' \<or> lower good = ''y''), w')
           \<and> stdin w' = rest \<and> smtp_ok w' = smtp_ok w \<and> log_level w' = log_level w
           \<and> trace w' = trace w @ ev \<and> (\<forall>e \<in> set ev. is_prompt_event e)"
proof -
  have p: "prompt_for ''y'' = Some '' [Y/n] ''" by (simp add: prompt_for_def)
  obtain w' where w': "confirm_loop question (Some '' [Y/n] '') ''y'' w
                         = (Inr (good = '''' \<or> lower good = ''y''), w')" "stdin w' = rest"
    using confirm_loop_until_valid [OF _ assms, of "''y''" question "'' [Y/n] ''"] by auto
  from confirm_loop_trace [of question "'' [Y/n] ''" "''y''" w] w'(1)
  obtain ev where "smtp_ok w' = smtp_ok w" "log_level w' = log_level w"
    "trace w' = trace w @ ev" "\<forall>e \<in> set ev. is_prompt_event e"
    by auto
  with w' p show ?thesis by (simp add: confirm_action_def)
qed


lemma at_prompt_monotonic_ns [simp]: "monotonic_ns (at_prompt ds w) = monotonic_ns w"
  by (simp add: at_prompt_def)
section \<open>Validation of the recipient table\<close>

text \<open>
  C6. A recipient table with no data row (nothing, or only blank rows, after the header
  row), and a table whose header row lacks the field \<^verbatim>\<open>EmailAddress\<close> whatever other
  columns it has, both end the batch run at once: the run exits, the only thing it has done
  is to log one error record, so no question was asked, no line of input was read and no
  message was sent.
\<close>

theorem invalid_table_rejected:
  assumes "filter (\<lambda>row. row \<noteq> []) (drop 1 recipient_rows) = []
           \<or> (\<exists>fieldnames rest. recipient_rows = fieldnames # rest
                                \<and> ''EmailAddress'' \<notin> set fieldnames)"
  shows "fst (send_multiple_emails recipient_rows a w) = Inl SystemExit
       \<and> stdin (snd (send_multiple_emails recipient_rows a w)) = stdin w
       \<and> (\<exists>msg. new_events w (snd (send_multiple_emails recipient_rows a w)) = [Log ERROR msg])"
proof (cases "DictReader recipient_rows = []")
  case True
  then show ?thesis
    by (simp add: send_multiple_emails_def new_events_def trace_log)
next
  case False
  with assms DictReader_empty obtain fieldnames rest where
    r: "recipient_rows = fieldnames # rest" and e: "''EmailAddress'' \<notin> set fieldnames"
    by blast
  from hd_DictReader False r obtain row where
    "hd (DictReader recipient_rows) = dict_row fieldnames row" by blast
  with e have "map_of (hd (DictReader recipient_rows)) (Some ''EmailAddress'') = None"
    by (simp add: lookup_dict_row)
  with False show ?thesis
    by (simp add: send_multiple_emails_def new_events_def trace_log Let_def)
qed

theorem invalid_table_rejected_witness:
  "send_multiple_emails [[''EmailAddress'', ''Name'']] example_args (example_world [''y''])
     = (Inl SystemExit,
        emit (Log ERROR (''The provided CSV is too short. There should be at least two rows. ''
                          @ ''The header row and one row of data.'')) (example_world [''y'']))
   \<and> send_multiple_emails [[''Email'', ''email_address''], [''a@x.com'', ''b@x.com'']]
        example_args (example_world [''y''])
     = (Inl SystemExit,
        emit (Log ERROR (''Looks like the EmailAddress field was not included in the recipient CSV file. ''
                          @ ''This is a required item and must be included.'')) (example_world [''y'']))"
  using invalid_table_rejected [of "[[''EmailAddress'', ''Name'']]" example_args "example_world [''y'']"]
    invalid_table_rejected [of "[[''Email'', ''email_address''], [''a@x.com'', ''b@x.com'']]"
       example_args "example_world [''y'']"]
  by (simp add: send_multiple_emails_def DictReader_def dict_row_def log_def example_world_def
        Let_def)

section \<open>Declining the confirmation\<close>

text \<open>
  C7. In a batch run over a table that passes validation, when the first valid answer to
  the prompt is n or N the run exits: everything it has done is to log at the levels INFO
  and WARNING and to read input, the last step being the warning. The trace holds no SMTP
  command and no message handed over, and nothing was substituted or built: the sending
  loop was never entered.
\<close>

theorem declined_sends_nothing:
  assumes "recipient_rows = fieldnames # rest" and "''EmailAddress'' \<in> set fieldnames"
    and "filter (\<lambda>row. row \<noteq> []) rest \<noteq> []"
    and "stdin w = bad @ good # unread" and "\<forall>l \<in> set bad. \<not> valid_answer l"
    and "good = ''n'' \<or> good = ''N''"
  shows "fst (send_multiple_emails recipient_rows a w) = Inl SystemExit
       \<and> stdin (snd (send_multiple_emails recipient_rows a w)) = unread
       \<and> (\<forall>e \<in> set (new_events w (snd (send_multiple_emails recipient_rows a w))).
             is_prompt_event e)
       \<and> filter is_smtp (new_events w (snd (send_multiple_emails recipient_rows a w))) = []
       \<and> sent (new_events w (snd (send_multiple_emails recipient_rows a w))) = []
       \<and> (\<exists>w'. snd (send_multiple_emails recipient_rows a w)
                  = log WARNING ''User termination. Improper values detected.'' w')"
proof -
  let ?ds = "DictReader recipient_rows"
  let ?w0 = "at_prompt ?ds w"
  have v: "valid_answer good" and d: "\<not> (good = '''' \<or> lower good = ''y'')"
    using assms(6) by (auto simp: valid_answer_def lower_eq_n lower_eq_y)
  obtain ev0 where ev0: "trace ?w0 = trace w @ ev0" "\<forall>e \<in> set ev0. is_prompt_event e"
    using at_prompt_trace by blast
  have "stdin ?w0 = bad @ good # unread" using assms(4) by simp
  from confirm_y_answer [OF this assms(5) v,
      of "''Before multiple emails are sent, do these values look correct?''"] d
  have "\<exists>w' ev. confirm_action ''Before multiple emails are sent, do these values look correct?''
                    ''y'' ?w0 = (Inr False, w')
           \<and> stdin w' = unread \<and> smtp_ok w' = smtp_ok ?w0 \<and> log_level w' = log_level ?w0
           \<and> trace w' = trace ?w0 @ ev \<and> (\<forall>e \<in> set ev. is_prompt_event e)"
    by simp
  then obtain w' ev1 where
    c: "confirm_action ''Before multiple emails are sent, do these values look correct?'' ''y'' ?w0
          = (Inr False, w')"
    and w': "stdin w' = unread" "trace w' = trace ?w0 @ ev1" "\<forall>e \<in> set ev1. is_prompt_event e"
    by blast
  let ?w2 = "log WARNING ''User termination. Improper values detected.'' w'"
  obtain ev2 where ev2: "trace ?w2 = trace w' @ ev2" "\<forall>e \<in> set ev2. is_prompt_event e"
    using log_prompt_event [of WARNING] by blast
  have r: "send_multiple_emails recipient_rows a w = (Inl SystemExit, ?w2)"
    using send_multiple_emails_valid [OF assms(1-3)] c by simp
  have t: "trace ?w2 = trace w @ (ev0 @ ev1 @ ev2)" using ev0 w' ev2 by simp
  have n: "new_events w ?w2 = ev0 @ ev1 @ ev2" using t by (rule new_events_append)
  have p: "\<forall>e \<in> set (ev0 @ ev1 @ ev2). is_prompt_event e" using ev0 w' ev2 by auto
  have f: "filter is_smtp (ev0 @ ev1 @ ev2) = []" "filter is_send_or_sleep (ev0 @ ev1 @ ev2) = []"
    using prompt_events_no_smtp [OF p] by simp_all
  have s: "sent (ev0 @ ev1 @ ev2) = []"
    using sent_filter [of "ev0 @ ev1 @ ev2"] f(2) by simp
  show ?thesis
    unfolding r fst_conv snd_conv n using p f(1) s w'(1) by (simp del: set_append filter_append sent_append) blast
qed

theorem declined_sends_nothing_witness:
  "fst (send_multiple_emails example_table example_args (example_world [''maybe'', ''N'', ''later'']))
     = Inl SystemExit
   \<and> stdin (snd (send_multiple_emails example_table example_args
                    (example_world [''maybe'', ''N'', ''later''])))
     = [''later'']
   \<and> filter is_smtp
       (new_events (example_world [''maybe'', ''N'', ''later''])
          (snd (send_multiple_emails example_table example_args
                  (example_world [''maybe'', ''N'', ''later''])))) = []
   \<and> sent
       (new_events (example_world [''maybe'', ''N'', ''later''])
          (snd (send_multiple_emails example_table example_args
                  (example_world [''maybe'', ''N'', ''later''])))) = []"
proof -
  have s: "stdin (example_world [''maybe'', ''N'', ''later'']) = [''maybe''] @ ''N'' # [''later'']"
    by (simp add: example_world_def)
  have b: "\<forall>l \<in> set [''maybe'']. \<not> valid_answer l"
    by (simp add: valid_answer_def lower_eq_y lower_eq_n lower_eq_Nil)
  from declined_sends_nothing [OF _ _ _ s b, of example_table "[''EmailAddress'', ''Name'']"
      "[[''a@x.com'', ''Alice''], [''b@x.com'', ''Bob'']]" example_args]
  show ?thesis by (simp add: example_table_def)
qed

section \<open>The confirmed batch run\<close>


lemma text_bodies_build_message [simp]: "text_bodies (build_message r a body) = [body]"
  by (auto simp: build_message_def build_parts_def split: option.splits)






section \<open>The credential check\<close>

text \<open>
  C8. Whenever exactly one of \<^verbatim>\<open>smtp_username\<close> and \<^verbatim>\<open>smtp_password\<close> is given,
  whatever the rest of the command line, \<^verbatim>\<open>main\<close> logs the error and exits; the run
  contains no SMTP command, not even a connection attempt.
\<close>

theorem credential_pair_checked:
  assumes "(smtp_username cli_args = None) \<noteq> (smtp_password cli_args = None)"
  shows "main cli_args w
           = (Inl SystemExit,
              emit (Log ERROR ''Both a username and password is required for SMTP authentication'')
                (w\<lparr>log_level := logging_level cli_args\<rparr>))
       \<and> filter is_smtp (new_events w (snd (main cli_args w))) = []"
  using assms
  by (cases "logging_level cli_args") (auto simp: main_def log_def emit_def new_events_def Let_def)

theorem credential_pair_checked_witness:
  "fst (main (example_args\<lparr>recipient := Some ''a@x.com'', smtp_username := Some ''bob''\<rparr>)
          (example_world [])) = Inl SystemExit
   \<and> filter is_smtp (new_events (example_world [])
        (snd (main (example_args\<lparr>recipient := Some ''a@x.com'', smtp_username := Some ''bob''\<rparr>)
               (example_world [])))) = []
   \<and> fst (main (example_args\<lparr>recipient := Some ''a@x.com'', smtp_password := Some ''secret''\<rparr>)
          (example_world [])) = Inl SystemExit"
proof -
  let ?a1 = "example_args\<lparr>recipient := Some ''a@x.com'', smtp_username := Some ''bob''\<rparr>"
  let ?a2 = "example_args\<lparr>recipient := Some ''a@x.com'', smtp_password := Some ''secret''\<rparr>"
  have h1: "(smtp_username ?a1 = None) \<noteq> (smtp_password ?a1 = None)"
    by (simp add: example_args_def)
  have h2: "(smtp_username ?a2 = None) \<noteq> (smtp_password ?a2 = None)"
    by (simp add: example_args_def)
  from credential_pair_checked [OF h1, of "example_world []"]
    credential_pair_checked [OF h2, of "example_world []"]
  show ?thesis by (simp add: new_events_def example_world_def)
qed

end
